theory Spec2Isabelle
  imports Main "HOL-Library.Sublist"
begin

section \<open>Text and character classes\<close>

text \<open>
  The checker works on Python \<open>str\<close> values.  A text is modelled as a \<open>string\<close>; every
  \<open>char\<close> stands for one code point below 256, and the character classes of the \<open>re\<close>
  module are written out for that range as the interpreter classifies it.
\<close>

definition isspace :: "char \<Rightarrow> bool" where
  \<comment> \<open>\<open>\s\<close> and \<open>str.isspace\<close>\<close>
  "isspace c = (let n = (of_char c :: nat) in
     (9 \<le> n \<and> n \<le> 13) \<or> (28 \<le> n \<and> n \<le> 32) \<or> n = 133 \<or> n = 160)"

definition isword :: "char \<Rightarrow> bool" where
  \<comment> \<open>\<open>\w\<close>: alphanumeric code points and the underscore\<close>
  "isword c = (let n = (of_char c :: nat) in
     (48 \<le> n \<and> n \<le> 57) \<or> (65 \<le> n \<and> n \<le> 90) \<or> n = 95 \<or> (97 \<le> n \<and> n \<le> 122) \<or>
     n = 170 \<or> n = 178 \<or> n = 179 \<or> n = 181 \<or> n = 185 \<or> n = 186 \<or>
     (188 \<le> n \<and> n \<le> 190) \<or> (192 \<le> n \<and> n \<le> 214) \<or> (216 \<le> n \<and> n \<le> 246) \<or>
     (248 \<le> n \<and> n \<le> 255))"

definition newline :: char where
  "newline = CHR 0x0A"

definition anychar :: "char \<Rightarrow> bool" where
  \<comment> \<open>\<open>.\<close> without the DOTALL flag\<close>
  "anychar c = (c \<noteq> newline)"

definition quote :: "char \<Rightarrow> bool" where
  \<comment> \<open>the set \<open>['"]\<close>\<close>
  "quote c = (c = CHR 0x27 \<or> c = CHR 0x22)"

definition notquote :: "char \<Rightarrow> bool" where
  \<comment> \<open>the set \<open>[^'"]\<close>\<close>
  "notquote c = (\<not> quote c)"

definition notbrace :: "char \<Rightarrow> bool" where
  \<comment> \<open>the set \<open>[^}]\<close>\<close>
  "notbrace c = (c \<noteq> CHR ''}'')"

definition is_char :: "char \<Rightarrow> char \<Rightarrow> bool" where
  "is_char a c = (c = a)"

section \<open>The regular expressions of the checker\<close>

text \<open>
  Every pattern of the source is a sequence of single-character sets, each under a
  quantifier, some of them enclosed by a capturing group, and the assertion \<open>\b\<close>.
  The matcher below is the backtracking matcher of \<open>re\<close> for such sequences: a greedy
  quantifier tries the longest run first and gives characters back one at a time, the
  lazy \<open>*?\<close> tries the shortest run first, and the first alternative for which the rest
  of the pattern matches is the match.
\<close>

datatype quant = One | Opt | Star | Plus | LazyStar

datatype item =
    Chars "char \<Rightarrow> bool" quant
  | Group "char \<Rightarrow> bool" quant
  | Bound

fun lo :: "quant \<Rightarrow> nat" where
  "lo One = 1"
| "lo Opt = 0"
| "lo Star = 0"
| "lo Plus = 1"
| "lo LazyStar = 0"

fun hi :: "quant \<Rightarrow> nat \<Rightarrow> nat" where
  \<comment> \<open>the longest repetition possible on a run of \<open>r\<close> characters of the set\<close>
  "hi One r = min 1 r"
| "hi Opt r = min 1 r"
| "hi Star r = r"
| "hi Plus r = r"
| "hi LazyStar r = r"

definition counts :: "quant \<Rightarrow> nat \<Rightarrow> nat list" where
  \<comment> \<open>the repetition counts in the order in which the matcher tries them\<close>
  "counts q r = (if q = LazyStar then [lo q..<Suc (hi q r)] else rev [lo q..<Suc (hi q r)])"

fun first_match :: "(nat \<Rightarrow> 'a option) \<Rightarrow> nat list \<Rightarrow> 'a option" where
  "first_match f [] = None"
| "first_match f (n # ns) = (case f n of Some r \<Rightarrow> Some r | None \<Rightarrow> first_match f ns)"

definition before :: "char option \<Rightarrow> string \<Rightarrow> char option" where
  \<comment> \<open>the character in front of the position reached after consuming \<open>xs\<close>\<close>
  "before prev xs = (if xs = [] then prev else Some (last xs))"

definition at_boundary :: "char option \<Rightarrow> string \<Rightarrow> bool" where
  \<comment> \<open>\<open>\b\<close>: exactly one of the two neighbours is a word character\<close>
  "at_boundary prev s =
     ((case prev of None \<Rightarrow> False | Some c \<Rightarrow> isword c) \<noteq>
      (case s of [] \<Rightarrow> False | c # _ \<Rightarrow> isword c))"

primrec rmatch :: "item list \<Rightarrow> char option \<Rightarrow> string \<Rightarrow> (string list \<times> nat) option" where
  \<comment> \<open>match at the start of \<open>s\<close>; the result is the captured groups and the length matched\<close>
  "rmatch [] prev s = Some ([], 0)"
| "rmatch (e # es) prev s =
     (case e of
        Bound \<Rightarrow> if at_boundary prev s then rmatch es prev s else None
      | Chars p q \<Rightarrow>
          first_match
            (\<lambda>n. case rmatch es (before prev (take n s)) (drop n s) of
                   None \<Rightarrow> None
                 | Some (gs, m) \<Rightarrow> Some (gs, n + m))
            (counts q (length (takeWhile p s)))
      | Group p q \<Rightarrow>
          first_match
            (\<lambda>n. case rmatch es (before prev (take n s)) (drop n s) of
                   None \<Rightarrow> None
                 | Some (gs, m) \<Rightarrow> Some (take n s # gs, n + m))
            (counts q (length (takeWhile p s))))"

definition tries :: "item list \<Rightarrow> char option \<Rightarrow> string \<Rightarrow> bool \<Rightarrow> nat list \<Rightarrow> (string list \<times> nat) option" where
  \<comment> \<open>the alternatives of one quantified set, in order, each followed by the rest \<open>es\<close>\<close>
  "tries es prev s cap ns =
     first_match
       (\<lambda>n. case rmatch es (before prev (take n s)) (drop n s) of
              None \<Rightarrow> None
            | Some (gs, m) \<Rightarrow> Some (if cap then take n s # gs else gs, n + m)) ns"

function finditer :: "item list \<Rightarrow> nat \<Rightarrow> char option \<Rightarrow> string \<Rightarrow> (nat \<times> string list) list" where
  \<comment> \<open>\<open>re.finditer\<close>: the non-overlapping matches from left to right, each with its offset\<close>
  "finditer pat pos prev s =
     (case rmatch pat prev s of
        Some (gs, n) \<Rightarrow>
          (pos, gs) #
          (if s = [] then []
           else finditer pat (pos + max n 1) (before prev (take (max n 1) s)) (drop (max n 1) s))
      | None \<Rightarrow>
          (case s of
             [] \<Rightarrow> []
           | c # cs \<Rightarrow> finditer pat (Suc pos) (Some c) cs))"
  by pat_completeness auto
termination
  by (relation "measure (\<lambda>(pat, pos, prev, s). length s)") auto

function sub_empty :: "item list \<Rightarrow> char option \<Rightarrow> string \<Rightarrow> string" where
  \<comment> \<open>\<open>re.sub(pattern, '', s)\<close>: the text with every match removed\<close>
  "sub_empty pat prev s =
     (case rmatch pat prev s of
        Some (gs, n) \<Rightarrow>
          (if s = [] then []
           else if n = 0 then hd s # sub_empty pat (Some (hd s)) (tl s)
           else sub_empty pat (before prev (take n s)) (drop n s))
      | None \<Rightarrow>
          (case s of
             [] \<Rightarrow> []
           | c # cs \<Rightarrow> c # sub_empty pat (Some c) cs))"
  by pat_completeness auto
termination
  by (relation "measure (\<lambda>(pat, prev, s). length s)") auto

fun search :: "item list \<Rightarrow> char option \<Rightarrow> string \<Rightarrow> bool" where
  \<comment> \<open>\<open>re.search\<close>, read as a truth value: some position has a match\<close>
  "search pat prev [] = (rmatch pat prev [] \<noteq> None)"
| "search pat prev (c # cs) = (rmatch pat prev (c # cs) \<noteq> None \<or> search pat (Some c) cs)"

definition lit :: "string \<Rightarrow> item list" where
  \<comment> \<open>literal text, also what \<open>re.escape\<close> of it matches\<close>
  "lit s = map (\<lambda>c. Chars (is_char c) One) s"

definition named_pattern :: "item list" where
  \<comment> \<open>\<^verbatim>\<open>import\s*\{\s*([^}]+)\s*\}\s*from\s*['"]([^'"]+)['"]\<close>\<close>
  "named_pattern =
     lit ''import'' @ [Chars isspace Star, Chars (is_char CHR ''{'') One, Chars isspace Star,
       Group notbrace Plus, Chars isspace Star, Chars (is_char CHR ''}'') One, Chars isspace Star] @
     lit ''from'' @ [Chars isspace Star, Chars quote One, Group notquote Plus, Chars quote One]"

definition namespace_pattern :: "item list" where
  \<comment> \<open>\<^verbatim>\<open>import\s*\*\s*as\s+(\w+)\s+from\s+['"]([^'"]+)['"]\<close>\<close>
  "namespace_pattern =
     lit ''import'' @ [Chars isspace Star, Chars (is_char CHR ''*'') One, Chars isspace Star] @
     lit ''as'' @ [Chars isspace Plus, Group isword Plus, Chars isspace Plus] @
     lit ''from'' @ [Chars isspace Plus, Chars quote One, Group notquote Plus, Chars quote One]"

definition default_pattern :: "item list" where
  \<comment> \<open>\<^verbatim>\<open>import\s+(\w+)\s+from\s+['"]([^'"]+)['"]\<close>\<close>
  "default_pattern =
     lit ''import'' @ [Chars isspace Plus, Group isword Plus, Chars isspace Plus] @
     lit ''from'' @ [Chars isspace Plus, Chars quote One, Group notquote Plus, Chars quote One]"

definition side_effect_pattern :: "item list" where
  \<comment> \<open>\<^verbatim>\<open>import\s+['"]([^'"]+)['"]\<close>\<close>
  "side_effect_pattern =
     lit ''import'' @ [Chars isspace Plus, Chars quote One, Group notquote Plus, Chars quote One]"

definition from_import_pattern :: "item list" where
  \<comment> \<open>\<^verbatim>\<open>import\s+.*?from\s+['"][^'"]+['"];?\<close>\<close>
  "from_import_pattern =
     lit ''import'' @ [Chars isspace Plus, Chars anychar LazyStar] @
     lit ''from'' @ [Chars isspace Plus, Chars quote One, Chars notquote Plus, Chars quote One,
       Chars (is_char CHR '';'') Opt]"

definition bare_import_pattern :: "item list" where
  \<comment> \<open>\<^verbatim>\<open>import\s+['"][^'"]+['"];?\<close>\<close>
  "bare_import_pattern =
     lit ''import'' @ [Chars isspace Plus, Chars quote One, Chars notquote Plus, Chars quote One,
       Chars (is_char CHR '';'') Opt]"

definition word_pattern :: "string \<Rightarrow> item list" where
  \<comment> \<open>\<^verbatim>\<open>rf'\b{re.escape(name)}\b'\<close>\<close>
  "word_pattern name = Bound # lit name @ [Bound]"

section \<open>String operations\<close>

definition strip :: "string \<Rightarrow> string" where
  \<comment> \<open>\<open>str.strip()\<close>\<close>
  "strip s = rev (dropWhile isspace (rev (dropWhile isspace s)))"

function split_acc :: "string \<Rightarrow> string \<Rightarrow> string \<Rightarrow> string list" where
  \<comment> \<open>the scan of \<open>str.split(sep)\<close>; \<open>cur\<close> is the piece read since the last separator\<close>
  "split_acc sep cur [] = [cur]"
| "split_acc sep cur (c # cs) =
     (if prefix sep (c # cs) then cur # split_acc sep [] (drop (length sep - 1) cs)
      else split_acc sep (cur @ [c]) cs)"
  by pat_completeness auto
termination
  by (relation "measure (\<lambda>(sep, cur, s). length s)") auto

definition split :: "string \<Rightarrow> string \<Rightarrow> string list" where
  \<comment> \<open>\<open>s.split(sep)\<close>; the separators of the source are non-empty constants\<close>
  "split sep s = split_acc sep [] s"

definition describe :: "string \<Rightarrow> string \<Rightarrow> string" where
  \<comment> \<open>\<^verbatim>\<open>f"{item} from '{module}'"\<close>\<close>
  "describe item module = item @ '' from '' @ [CHR 0x27] @ module @ [CHR 0x27]"

definition side_effect :: string where
  "side_effect = ''__side_effect__''"

section \<open>The import extractor\<close>

type_synonym module_imports = "(string \<times> string list) list"

text \<open>
  The dictionary \<open>imports\<close> keeps its keys in the order of their first insertion; it is an
  association list with one entry for each key.  Reading \<open>imports[module]\<close> of the
  \<open>defaultdict\<close> creates the entry when the key is new.
\<close>

fun dict_extend :: "module_imports \<Rightarrow> string \<Rightarrow> string list \<Rightarrow> module_imports" where
  \<comment> \<open>\<open>imports[module].extend(items)\<close>\<close>
  "dict_extend [] module items = [(module, items)]"
| "dict_extend ((m, xs) # imports) module items =
     (if m = module then (m, xs @ items) # imports
      else (m, xs) # dict_extend imports module items)"

definition clean_item :: "string \<Rightarrow> string" where
  \<comment> \<open>\<open>item.strip().split(' as ')[0].strip()\<close>; a split has at least one piece\<close>
  "clean_item item = strip (hd (split '' as '' (strip item)))"

definition named_items :: "string \<Rightarrow> string list" where
  "named_items imported_items = map clean_item (split '','' imported_items)"

definition add_named :: "nat \<times> string list \<Rightarrow> module_imports \<Rightarrow> module_imports" where
  "add_named match imports = dict_extend imports (snd match ! 1) (named_items (snd match ! 0))"

definition add_namespace :: "nat \<times> string list \<Rightarrow> module_imports \<Rightarrow> module_imports" where
  "add_namespace match imports = dict_extend imports (snd match ! 1) [''* as '' @ snd match ! 0]"

definition add_default :: "nat \<times> string list \<Rightarrow> module_imports \<Rightarrow> module_imports" where
  "add_default match imports = dict_extend imports (snd match ! 1) [snd match ! 0]"

definition add_side_effect :: "nat \<times> string list \<Rightarrow> module_imports \<Rightarrow> module_imports" where
  "add_side_effect match imports = dict_extend imports (snd match ! 0) [side_effect]"

definition extract_imports :: "string \<Rightarrow> module_imports" where
  "extract_imports content =
     (let imports = [];
          imports = fold add_named (finditer named_pattern 0 None content) imports;
          imports = fold add_namespace (finditer namespace_pattern 0 None content) imports;
          imports = fold add_default (finditer default_pattern 0 None content) imports;
          imports = fold add_side_effect (finditer side_effect_pattern 0 None content) imports
      in imports)"

section \<open>The usage resolver\<close>

datatype error = IndexError | KeyError | OSError

definition content_without_imports :: "string \<Rightarrow> string" where
  "content_without_imports content =
     sub_empty bare_import_pattern None (sub_empty from_import_pattern None content)"

definition namespace_name :: "string \<Rightarrow> error + string" where
  \<comment> \<open>\<open>item.split('* as ')[1]\<close>\<close>
  "namespace_name item =
     (case split ''* as '' item of
        _ # namespace # _ \<Rightarrow> Inr namespace
      | _ \<Rightarrow> Inl IndexError)"

fun unused_items :: "string \<Rightarrow> string \<Rightarrow> string list \<Rightarrow> string list \<Rightarrow> error + string list" where
  \<comment> \<open>the loop over the items of one module; \<open>text\<close> is the content without imports\<close>
  "unused_items text module [] unused = Inr unused"
| "unused_items text module (item # items) unused =
     (if item = side_effect then unused_items text module items unused
      else if prefix ''* as '' item then
        (case namespace_name item of
           Inl e \<Rightarrow> Inl e
         | Inr namespace \<Rightarrow>
             if \<not> search (word_pattern namespace) None text
             then unused_items text module items (unused @ [describe item module])
             else unused_items text module items unused)
      else
        if \<not> search (word_pattern item) None text
        then unused_items text module items (unused @ [describe item module])
        else unused_items text module items unused)"

fun unused_modules :: "string \<Rightarrow> module_imports \<Rightarrow> string list \<Rightarrow> error + string list" where
  "unused_modules text [] unused = Inr unused"
| "unused_modules text ((module, items) # imports) unused =
     (case unused_items text module items unused of
        Inl e \<Rightarrow> Inl e
      | Inr unused' \<Rightarrow> unused_modules text imports unused')"

definition find_unused_imports :: "string \<Rightarrow> module_imports \<Rightarrow> error + string list" where
  "find_unused_imports content imports =
     unused_modules (content_without_imports content) imports []"

section \<open>The duplicate detector\<close>

fun duplicate_items :: "string \<Rightarrow> string list \<Rightarrow> string set \<Rightarrow> string list \<Rightarrow> string list" where
  "duplicate_items module [] seen duplicates = duplicates"
| "duplicate_items module (item # items) seen duplicates =
     duplicate_items module items (insert item seen)
       (if item \<in> seen \<and> item \<noteq> side_effect then duplicates @ [describe item module]
        else duplicates)"

fun duplicate_modules :: "module_imports \<Rightarrow> string list \<Rightarrow> string list" where
  "duplicate_modules [] duplicates = duplicates"
| "duplicate_modules ((module, items) # imports) duplicates =
     duplicate_modules imports (duplicate_items module items {} duplicates)"

definition find_duplicate_imports :: "module_imports \<Rightarrow> string list" where
  "find_duplicate_imports imports = duplicate_modules imports []"

section \<open>Scanning files and the exit status\<close>

record stats =
  total_files :: int
  files_with_unused :: int
  files_with_duplicates :: int
  total_unused_imports :: int
  total_duplicate_imports :: int

record results =
  unused_imports :: "(string \<times> string list) list"
  duplicate_imports :: "(string \<times> string list) list"
  missing_imports :: "string list"
  stats :: "stats option"

definition init :: results where
  \<comment> \<open>\<open>ImportChecker.__init__\<close>; the empty \<open>stats\<close> dictionary is \<open>None\<close>\<close>
  "init = \<lparr>unused_imports = [], duplicate_imports = [], missing_imports = [], stats = None\<rparr>"

text \<open>
  A file of the traversal is its path relative to the root and what reading it gives:
  the text, or \<open>None\<close> when \<open>read_text\<close> raises.
\<close>

type_synonym ts_file = "string \<times> string option"

definition check_file :: "results \<Rightarrow> ts_file \<Rightarrow> error + (results \<times> string list \<times> string list)" where
  "check_file res file_path =
     (case snd file_path of
        None \<Rightarrow> Inr (res, [], [])
      | Some content \<Rightarrow>
          (let imports = extract_imports content in
           case find_unused_imports content imports of
             Inl e \<Rightarrow> Inl e
           | Inr unused \<Rightarrow>
               (let duplicates = find_duplicate_imports imports;
                    res = (if unused \<noteq> []
                           then res\<lparr>unused_imports := unused_imports res @ [(fst file_path, unused)]\<rparr>
                           else res);
                    res = (if duplicates \<noteq> []
                           then res\<lparr>duplicate_imports :=
                                      duplicate_imports res @ [(fst file_path, duplicates)]\<rparr>
                           else res)
                in Inr (res, unused, duplicates))))"

fun scan_files :: "results \<Rightarrow> ts_file list \<Rightarrow> int \<Rightarrow> int \<Rightarrow> error + (results \<times> int \<times> int)" where
  \<comment> \<open>the loop of \<open>scan_directory\<close> over \<open>ts_files\<close>\<close>
  "scan_files res [] total_unused total_duplicates = Inr (res, total_unused, total_duplicates)"
| "scan_files res (file_path # ts_files) total_unused total_duplicates =
     (case check_file res file_path of
        Inl e \<Rightarrow> Inl e
      | Inr (res', unused, duplicates) \<Rightarrow>
          scan_files res' ts_files (total_unused + int (length unused))
            (total_duplicates + int (length duplicates)))"

definition scan_directory :: "results \<Rightarrow> ts_file list \<Rightarrow> error + results" where
  "scan_directory res ts_files =
     (case scan_files res ts_files 0 0 of
        Inl e \<Rightarrow> Inl e
      | Inr (res', total_unused, total_duplicates) \<Rightarrow>
          Inr (res'\<lparr>stats := Some
            \<lparr>total_files = int (length ts_files),
             files_with_unused = int (length [r \<leftarrow> unused_imports res'. snd r \<noteq> []]),
             files_with_duplicates = int (length (duplicate_imports res')),
             total_unused_imports = total_unused,
             total_duplicate_imports = total_duplicates\<rparr>\<rparr>))"










section \<open>Notions used in the statements\<close>

text \<open>
  The identifier that \<open>find_unused_imports\<close> searches for: the namespace of a namespaced
  binding, the binding's own text otherwise.
\<close>

definition usage_key :: "string \<Rightarrow> string" where
  "usage_key item =
     (if prefix ''* as '' item then hd (split ''* as '' (drop 5 item)) else item)"

text \<open>The test of \<open>find_unused_imports\<close> that puts a binding on the unused list.\<close>

definition is_unused :: "string \<Rightarrow> string \<Rightarrow> bool" where
  "is_unused text item = (item \<noteq> side_effect \<and> \<not> search (word_pattern (usage_key item)) None text)"

text \<open>The items of a list that occur at an earlier position too, the sentinel left out.\<close>

fun repeated :: "string list \<Rightarrow> string set \<Rightarrow> string list" where
  "repeated [] seen = []"
| "repeated (item # items) seen =
     (if item \<in> seen \<and> item \<noteq> side_effect then item # repeated items (insert item seen)
      else repeated items (insert item seen))"

text \<open>The descriptions of the selected items of every module, in the order of the dictionary.\<close>

definition report :: "(string list \<Rightarrow> string list) \<Rightarrow> module_imports \<Rightarrow> string list" where
  "report g imports = concat (map (\<lambda>(m, items). map (\<lambda>i. describe i m) (g items)) imports)"

text \<open>What \<open>check_file\<close> finds in one file.\<close>

definition file_unused :: "ts_file \<Rightarrow> string list" where
  "file_unused f =
     (case snd f of
        None \<Rightarrow> []
      | Some content \<Rightarrow>
          (case find_unused_imports content (extract_imports content) of
             Inl e \<Rightarrow> []
           | Inr unused \<Rightarrow> unused))"

definition file_duplicates :: "ts_file \<Rightarrow> string list" where
  "file_duplicates f =
     (case snd f of
        None \<Rightarrow> []
      | Some content \<Rightarrow> find_duplicate_imports (extract_imports content))"

fun group_sets :: "item list \<Rightarrow> (char \<Rightarrow> bool) list" where
  "group_sets [] = []"
| "group_sets (Group p q # es) = p # group_sets es"
| "group_sets (Chars p q # es) = group_sets es"
| "group_sets (Bound # es) = group_sets es"

definition bindings_of :: "module_imports \<Rightarrow> string \<Rightarrow> string list" where
  "bindings_of imps m = (case map_of imps m of None \<Rightarrow> [] | Some items \<Rightarrow> items)"

definition declarations :: "string \<Rightarrow> (nat \<times> string \<times> string list) list" where
  \<comment> \<open>offset, module and bindings of every declaration, in the order of the four passes\<close>
  "declarations content =
     map (\<lambda>x. (fst x, snd x ! 1, named_items (snd x ! 0))) (finditer named_pattern 0 None content) @
     map (\<lambda>x. (fst x, snd x ! 1, [''* as '' @ snd x ! 0])) (finditer namespace_pattern 0 None content) @
     map (\<lambda>x. (fst x, snd x ! 1, [snd x ! 0])) (finditer default_pattern 0 None content) @
     map (\<lambda>x. (fst x, snd x ! 0, [side_effect])) (finditer side_effect_pattern 0 None content)"

definition in_declaration_order :: "string \<Rightarrow> string \<Rightarrow> string list" where
  \<comment> \<open>the bindings of a module's declarations, the declarations taken by their offset\<close>
  "in_declaration_order content m =
     concat (map (\<lambda>d. snd (snd d)) (sort_key fst [d\<leftarrow>declarations content. fst (snd d) = m]))"

definition nonword :: "char option \<Rightarrow> bool" where
  \<comment> \<open>an end of the text, or a character that is not an identifier character\<close>
  "nonword x = (case x of None \<Rightarrow> True | Some c \<Rightarrow> \<not> isword c)"

definition standalone :: "string \<Rightarrow> char option \<Rightarrow> string \<Rightarrow> bool" where
  \<comment> \<open>the name stands at the start of \<open>s\<close>, \<open>prev\<close> being the character in front of \<open>s\<close>\<close>
  "standalone name prev s =
     (prefix name s \<and> nonword prev \<and>
      nonword (case drop (length name) s of [] \<Rightarrow> None | c # _ \<Rightarrow> Some c))"

fun whole_word :: "string \<Rightarrow> char option \<Rightarrow> string \<Rightarrow> bool" where
  \<comment> \<open>a whole-word occurrence: the name stands somewhere in the text, no identifier
      character on either side of it\<close>
  "whole_word name prev [] = standalone name prev []"
| "whole_word name prev (c # cs) = (standalone name prev (c # cs) \<or> whole_word name (Some c) cs)"

section \<open>Equations for evaluation\<close>

text \<open>
  The matcher is evaluated alternative by alternative: the rest of a pattern is entered
  only with the text that is left for it.
\<close>

lemma tries_code [code]:
  "tries es prev s cap [] = None"
  "tries es prev s cap (n # ns) =
     (case rmatch es (before prev (take n s)) (drop n s) of
        None \<Rightarrow> tries es prev s cap ns
      | Some (gs, m) \<Rightarrow> Some (if cap then take n s # gs else gs, n + m))"
  by (auto simp: tries_def split: option.splits)

lemma rmatch_code [code]:
  "rmatch [] prev s = Some ([], 0)"
  "rmatch (Bound # es) prev s = (if at_boundary prev s then rmatch es prev s else None)"
  "rmatch (Chars p q # es) prev s = tries es prev s False (counts q (length (takeWhile p s)))"
  "rmatch (Group p q # es) prev s = tries es prev s True (counts q (length (takeWhile p s)))"
  by (simp_all add: tries_def cong: option.case_cong prod.case_cong)

section \<open>The loops of the resolver and of the detector\<close>

lemma split_acc_nonempty: "split_acc sep cur s \<noteq> []"
  by (induction sep cur s rule: split_acc.induct) auto

lemma split_acc_sep: "sep \<noteq> [] \<Longrightarrow> split_acc sep cur (sep @ r) = cur # split_acc sep [] r"
  by (cases sep) auto

lemma namespace_name_prefix:
  assumes "prefix ''* as '' item"
  shows "namespace_name item = Inr (usage_key item)"
proof -
  from assms obtain r where r: "item = ''* as '' @ r" by (auto simp: prefix_def)
  have "split ''* as '' item = [] # split_acc ''* as '' [] r"
    unfolding split_def r by (rule split_acc_sep) simp
  moreover obtain p ps where "split_acc ''* as '' [] r = p # ps"
    using split_acc_nonempty by (cases "split_acc ''* as '' [] r") auto
  ultimately show ?thesis
    using assms by (simp add: namespace_name_def usage_key_def r split_def)
qed

lemma unused_items_eq:
  "unused_items text module items unused =
     Inr (unused @ map (\<lambda>i. describe i module) (filter (is_unused text) items))"
proof (induction items arbitrary: unused)
  case Nil
  show ?case by simp
next
  case (Cons item items)
  show ?case
  proof (cases "prefix ''* as '' item")
    case True
    then show ?thesis
      using Cons namespace_name_prefix [OF True] by (simp add: is_unused_def)
  next
    case False
    then show ?thesis using Cons by (simp add: is_unused_def usage_key_def)
  qed
qed

lemma unused_modules_eq:
  "unused_modules text imps unused = Inr (unused @ report (filter (is_unused text)) imps)"
  by (induction imps arbitrary: unused) (auto simp: unused_items_eq report_def)

lemma find_unused_imports_eq:
  "find_unused_imports content imps =
     Inr (report (filter (is_unused (content_without_imports content))) imps)"
  by (simp add: find_unused_imports_def unused_modules_eq)

lemma duplicate_items_eq:
  "duplicate_items module items seen duplicates =
     duplicates @ map (\<lambda>i. describe i module) (repeated items seen)"
  by (induction items arbitrary: seen duplicates) auto

lemma duplicate_modules_eq:
  "duplicate_modules imps duplicates = duplicates @ report (\<lambda>items. repeated items {}) imps"
  by (induction imps arbitrary: duplicates) (auto simp: duplicate_items_eq report_def)

lemma find_duplicate_imports_eq:
  "find_duplicate_imports imps = report (\<lambda>items. repeated items {}) imps"
  by (simp add: find_duplicate_imports_def duplicate_modules_eq)

lemma repeated_append:
  "repeated (xs @ ys) seen = repeated xs seen @ repeated ys (seen \<union> set xs)"
  by (induction xs arbitrary: seen) auto

lemma count_repeated:
  "item \<noteq> side_effect \<Longrightarrow>
   count_list (repeated items seen) item =
     (if item \<in> seen then count_list items item else count_list items item - 1)"
  by (induction items arbitrary: seen) auto

lemma repeated_side_effect: "side_effect \<notin> set (repeated items seen)"
  by (induction items arbitrary: seen) auto

lemma describe_module:
  assumes "list_all notquote m"
  shows "rev (takeWhile (\<lambda>c. c \<noteq> CHR 0x27) (tl (rev (describe i m)))) = m"
proof -
  have "\<forall>c\<in>set (rev m). c \<noteq> CHR 0x27"
    using assms by (auto simp: list_all_iff notquote_def quote_def)
  then have "takeWhile (\<lambda>c. c \<noteq> CHR 0x27) (rev m @ CHR 0x27 # rev (i @ '' from '')) = rev m"
    by (simp add: takeWhile_tail)
  then show ?thesis by (simp add: describe_def)
qed

lemma describe_inj:
  assumes "list_all notquote m" "list_all notquote m'" "describe i m = describe i' m'"
  shows "i = i' \<and> m = m'"
proof -
  have "m = m'" using describe_module [OF assms(1), of i] describe_module [OF assms(2), of i'] assms(3)
    by simp
  then show ?thesis using assms(3) by (simp add: describe_def)
qed

lemma describe_inj_item: "describe i m = describe i' m \<longleftrightarrow> i = i'"
  by (simp add: describe_def)

lemma count_map_describe: "count_list (map (\<lambda>i. describe i m) xs) (describe item m) = count_list xs item"
  by (induction xs) (auto simp: describe_inj_item)

lemma report_other:
  assumes "m \<notin> fst ` set imps" "list_all notquote m" "\<forall>k\<in>fst ` set imps. list_all notquote k"
  shows "describe item m \<notin> set (report g imps)"
proof
  assume "describe item m \<in> set (report g imps)"
  then obtain k its i where k: "(k, its) \<in> set imps" and "describe item m = describe i k"
    by (auto simp: report_def)
  moreover have "list_all notquote k" using k assms(3) by force
  ultimately have "m = k" using describe_inj [OF assms(2)] by blast
  then show False using k assms(1) by force
qed

lemma count_notin: "x \<notin> set xs \<Longrightarrow> count_list xs x = 0"
  by (induction xs) auto

lemma count_report:
  assumes "distinct (map fst imps)" "(m, items) \<in> set imps"
    "\<forall>k\<in>fst ` set imps. list_all notquote k"
  shows "count_list (report g imps) (describe item m) = count_list (g items) item"
  using assms
proof (induction imps)
  case Nil
  then show ?case by simp
next
  case (Cons e imps)
  obtain k its where e: "e = (k, its)" by (cases e)
  have qm: "list_all notquote m" using Cons.prems by force
  show ?case
  proof (cases "k = m")
    case True
    then have its: "its = items" using Cons.prems e by (auto simp: image_iff)
    have "m \<notin> fst ` set imps" using Cons.prems e True by auto
    then have "describe item m \<notin> set (report g imps)"
      using report_other qm Cons.prems by auto
    then have "count_list (report g imps) (describe item m) = 0" by (rule count_notin)
    then show ?thesis using e True its by (simp add: report_def count_map_describe)
  next
    case False
    then have mem: "(m, items) \<in> set imps" using Cons.prems e by auto
    have "list_all notquote k" using Cons.prems e by auto
    then have "describe item m \<notin> set (map (\<lambda>i. describe i k) (g its))"
      using False qm by (auto dest: describe_inj [rotated 2])
    then have "count_list (map (\<lambda>i. describe i k) (g its)) (describe item m) = 0"
      by (rule count_notin)
    moreover have "count_list (report g imps) (describe item m) = count_list (g items) item"
      using Cons.IH mem Cons.prems by auto
    ultimately show ?thesis using e by (simp add: report_def)
  qed
qed

section \<open>Scanning and the exit status\<close>

lemma check_file_eq:
  "check_file res f =
     Inr (res\<lparr>unused_imports := unused_imports res @ [(fst f, file_unused f). file_unused f \<noteq> []],
              duplicate_imports :=
                duplicate_imports res @ [(fst f, file_duplicates f). file_duplicates f \<noteq> []]\<rparr>,
          file_unused f, file_duplicates f)"
  by (cases "snd f")
     (auto simp: check_file_def file_unused_def file_duplicates_def find_unused_imports_eq Let_def)

lemma scan_files_eq:
  "scan_files res fs tu td =
     Inr (res\<lparr>unused_imports :=
                unused_imports res @ [(fst f, file_unused f). f \<leftarrow> fs, file_unused f \<noteq> []],
              duplicate_imports :=
                duplicate_imports res @
                [(fst f, file_duplicates f). f \<leftarrow> fs, file_duplicates f \<noteq> []]\<rparr>,
          tu + (\<Sum>f\<leftarrow>fs. int (length (file_unused f))),
          td + (\<Sum>f\<leftarrow>fs. int (length (file_duplicates f))))"
proof (induction fs arbitrary: res tu td)
  case Nil
  show ?case by simp
next
  case (Cons f fs)
  show ?case by (simp add: check_file_eq Cons.IH)
qed

lemma length_concat_if:
  "length (concat (map (\<lambda>f. if P f then [g f] else []) fs)) = length (filter P fs)"
  by (induction fs) auto

lemma filter_concat_if:
  "filter Q (concat (map (\<lambda>f. if P f then [g f] else []) fs)) =
     concat (map (\<lambda>f. if P f \<and> Q (g f) then [g f] else []) fs)"
  by (induction fs) auto


lemma scan_directory_init:
  "scan_directory init ts_files =
     Inr \<lparr>unused_imports = [(fst f, file_unused f). f \<leftarrow> ts_files, file_unused f \<noteq> []],
          duplicate_imports = [(fst f, file_duplicates f). f \<leftarrow> ts_files, file_duplicates f \<noteq> []],
          missing_imports = [],
          stats = Some
            \<lparr>total_files = int (length ts_files),
             files_with_unused = int (length [f\<leftarrow>ts_files. file_unused f \<noteq> []]),
             files_with_duplicates = int (length [f\<leftarrow>ts_files. file_duplicates f \<noteq> []]),
             total_unused_imports = (\<Sum>f\<leftarrow>ts_files. int (length (file_unused f))),
             total_duplicate_imports = (\<Sum>f\<leftarrow>ts_files. int (length (file_duplicates f)))\<rparr>\<rparr>"
  by (simp add: scan_directory_def scan_files_eq init_def length_concat_if filter_concat_if)

lemma example_file_unused:
  "file_unused (''a.ts'', Some ''import { A } from 'm';'') = [describe ''A'' ''m'']"
  by code_simp

lemma example_file_duplicates:
  "file_duplicates (''a.ts'', Some ''import { A } from 'm';'') = []"
  by code_simp

lemma example_unread:
  "file_unused (''b.ts'', None) = [] \<and> file_duplicates (''b.ts'', None) = []"
  by (simp add: file_unused_def file_duplicates_def)



text \<open>
  Claim C9.  A scan of a fresh checker never raises, and its statistics are: the total of
  unused imports is the sum of the lengths of the files' unused lists, the total of
  duplicate imports is the sum of the lengths of their duplicates lists, and
  \<open>files_with_unused\<close> and \<open>files_with_duplicates\<close> count the files whose list is not
  empty.  A file that cannot be read has two empty lists.
\<close>

theorem scan_directory_stats:
  "\<exists>checker st.
     scan_directory init ts_files = Inr checker \<and> stats checker = Some st \<and>
     total_files st = int (length ts_files) \<and>
     total_unused_imports st = (\<Sum>f\<leftarrow>ts_files. int (length (file_unused f))) \<and>
     total_duplicate_imports st = (\<Sum>f\<leftarrow>ts_files. int (length (file_duplicates f))) \<and>
     files_with_unused st = int (length [f\<leftarrow>ts_files. file_unused f \<noteq> []]) \<and>
     files_with_duplicates st = int (length [f\<leftarrow>ts_files. file_duplicates f \<noteq> []])"
  by (simp add: scan_directory_init)

theorem scan_directory_stats_witness:
  "\<exists>checker st.
     scan_directory init [(''a.ts'', Some ''import { A } from 'm';''), (''b.ts'', None)] =
       Inr checker \<and>
     stats checker = Some st \<and> total_files st = 2 \<and> total_unused_imports st = 1 \<and>
     total_duplicate_imports st = 0 \<and> files_with_unused st = 1 \<and> files_with_duplicates st = 0"
  using scan_directory_stats [of "[(''a.ts'', Some ''import { A } from 'm';''), (''b.ts'', None)]"]
  by (simp add: example_file_unused example_file_duplicates example_unread)






section \<open>Matches and their offsets\<close>

declare finditer.simps [simp del] sub_empty.simps [simp del]

lemma first_match_Some:
  "first_match f ns = Some r \<Longrightarrow> \<exists>n\<in>set ns. f n = Some r"
  by (induction ns) (auto split: option.splits)

lemma first_match_None: "first_match f ns = None \<longleftrightarrow> (\<forall>n\<in>set ns. f n = None)"
  by (induction ns) (auto split: option.splits)

lemma counts_bounds: "n \<in> set (counts q r) \<Longrightarrow> lo q \<le> n \<and> n \<le> r"
  by (cases q) (auto simp: counts_def)

lemma rmatch_Chars:
  assumes "rmatch (Chars p q # es) prev s = Some (gs, k)"
  shows "\<exists>n m. lo q \<le> n \<and> n \<le> length (takeWhile p s) \<and> k = n + m \<and>
           rmatch es (before prev (take n s)) (drop n s) = Some (gs, m)"
proof -
  from assms obtain n where n: "n \<in> set (counts q (length (takeWhile p s)))"
    and m: "(case rmatch es (before prev (take n s)) (drop n s) of None \<Rightarrow> None
           | Some (gs, m) \<Rightarrow> Some (gs, n + m)) = Some (gs, k)"
    by (auto dest!: first_match_Some)
  from m obtain m' where "rmatch es (before prev (take n s)) (drop n s) = Some (gs, m')" "k = n + m'"
    by (auto split: option.splits)
  then show ?thesis using counts_bounds [OF n] by blast
qed

lemma rmatch_Group:
  assumes "rmatch (Group p q # es) prev s = Some (gs, k)"
  shows "\<exists>n m gs'. lo q \<le> n \<and> n \<le> length (takeWhile p s) \<and> k = n + m \<and> gs = take n s # gs' \<and>
           rmatch es (before prev (take n s)) (drop n s) = Some (gs', m)"
proof -
  from assms obtain n where n: "n \<in> set (counts q (length (takeWhile p s)))"
    and m: "(case rmatch es (before prev (take n s)) (drop n s) of None \<Rightarrow> None
           | Some (gs', m) \<Rightarrow> Some (take n s # gs', n + m)) = Some (gs, k)"
    by (auto dest!: first_match_Some)
  from m obtain m' gs' where "rmatch es (before prev (take n s)) (drop n s) = Some (gs', m')"
    "k = n + m'" "gs = take n s # gs'"
    by (auto split: option.splits)
  then show ?thesis using counts_bounds [OF n] by blast
qed

lemma take_run: "n \<le> length (takeWhile p s) \<Longrightarrow> list_all p (take n s)"
proof -
  assume n: "n \<le> length (takeWhile p s)"
  have "take n (takeWhile p s @ dropWhile p s) = take n (takeWhile p s)"
    using n by (simp only: take_append) simp
  then have "take n s = take n (takeWhile p s)" by simp
  then have "set (take n s) \<subseteq> set (takeWhile p s)" by (simp add: set_take_subset)
  then show ?thesis by (auto simp: list_all_iff dest: set_takeWhileD)
qed

lemma rmatch_groups:
  "rmatch pat prev s = Some (gs, k) \<Longrightarrow> list_all2 (\<lambda>g p. list_all p g) gs (group_sets pat)"
proof (induction pat arbitrary: prev s gs k)
  case Nil
  then show ?case by simp
next
  case (Cons e es)
  show ?case
  proof (cases e)
    case (Chars p q)
    then show ?thesis using Cons.prems Cons.IH by (auto dest!: rmatch_Chars simp del: rmatch.simps)
  next
    case (Group p q)
    then show ?thesis using Cons.prems Cons.IH
      by (auto dest!: rmatch_Group simp del: rmatch.simps simp: take_run)
  next
    case Bound
    then show ?thesis using Cons.prems Cons.IH by (auto split: if_splits)
  qed
qed

lemma finditer_match:
  "(i, gs) \<in> set (finditer pat pos prev s) \<Longrightarrow>
     pos \<le> i \<and> (\<exists>prev' n. rmatch pat prev' (drop (i - pos) s) = Some (gs, n))"
proof (induction pat pos prev s rule: finditer.induct)
  case (1 pat pos prev s)
  show ?case
  proof (cases "rmatch pat prev s")
    case None
    then have eq: "finditer pat pos prev s =
        (case s of [] \<Rightarrow> [] | c # cs \<Rightarrow> finditer pat (Suc pos) (Some c) cs)"
      by (simp add: finditer.simps [of pat pos prev s])
    then obtain c cs where s: "s = c # cs" and mem: "(i, gs) \<in> set (finditer pat (Suc pos) (Some c) cs)"
      using "1.prems" by (cases s) auto
    from "1.IH"(1) [OF None s mem] have "Suc pos \<le> i"
      and "\<exists>prev' n. rmatch pat prev' (drop (i - Suc pos) cs) = Some (gs, n)" by auto
    moreover have "drop (i - pos) s = drop (i - Suc pos) cs"
    proof -
      have "i - pos = Suc (i - Suc pos)" using \<open>Suc pos \<le> i\<close> by arith
      then show ?thesis using s by simp
    qed
    ultimately show ?thesis by auto
  next
    case (Some r)
    obtain gs0 n0 where r: "r = (gs0, n0)" by (cases r)
    show ?thesis
    proof (cases "(i, gs) = (pos, gs0)")
      case True
      then show ?thesis using Some r by auto
    next
      case False
      then have ne: "s \<noteq> []"
        and mem: "(i, gs) \<in> set (finditer pat (pos + max n0 1) (before prev (take (max n0 1) s)) (drop (max n0 1) s))"
        using "1.prems" Some r by (auto simp: finditer.simps [of pat pos prev s] split: if_splits)
      from "1.IH"(2) [OF Some r [symmetric] ne mem]
      have le: "pos + max n0 1 \<le> i"
        and ex: "\<exists>prev' n. rmatch pat prev' (drop (i - (pos + max n0 1)) (drop (max n0 1) s)) = Some (gs, n)"
        by blast+
      have "drop (i - (pos + max n0 1)) (drop (max n0 1) s) = drop (i - pos) s"
        using le by simp
      with ex have "\<exists>prev' n. rmatch pat prev' (drop (i - pos) s) = Some (gs, n)" by simp
      moreover have "pos \<le> i" using le by arith
      ultimately show ?thesis by blast
    qed
  qed
qed

lemma finditer_offsets:
  "sorted_wrt (<) (map fst (finditer pat pos prev s))"
proof (induction pat pos prev s rule: finditer.induct)
  case (1 pat pos prev s)
  show ?case
  proof (cases "rmatch pat prev s")
    case None
    then have eq: "finditer pat pos prev s =
        (case s of [] \<Rightarrow> [] | c # cs \<Rightarrow> finditer pat (Suc pos) (Some c) cs)"
      by (simp add: finditer.simps [of pat pos prev s])
    show ?thesis using "1.IH"(1) [OF None] eq
      by (cases s) auto
  next
    case (Some r)
    obtain gs0 n0 where r: "r = (gs0, n0)" by (cases r)
    show ?thesis
    proof (cases "s = []")
      case True
      have "finditer pat pos prev s = [(pos, gs0)]"
        using Some r True by (subst finditer.simps) simp
      then show ?thesis by simp
    next
      case False
      have "\<forall>x\<in>set (finditer pat (pos + max n0 1) (before prev (take (max n0 1) s)) (drop (max n0 1) s)). pos < fst x"
        using finditer_match by fastforce
      then show ?thesis using Some r False "1.IH"(2) [OF Some r [symmetric] False]
        by (auto simp: finditer.simps [of pat pos prev s])
    qed
  qed
qed

section \<open>The dictionary built by the extractor\<close>

lemma keys_extend:
  "map fst (dict_extend imps k xs) = (if k \<in> fst ` set imps then map fst imps else map fst imps @ [k])"
  by (induction imps k xs rule: dict_extend.induct) (auto simp: image_iff)

lemma distinct_extend: "distinct (map fst imps) \<Longrightarrow> distinct (map fst (dict_extend imps k xs))"
  by (simp add: keys_extend)

lemma bindings_extend:
  "bindings_of (dict_extend imps k xs) m = bindings_of imps m @ (if k = m then xs else [])"
  by (induction imps k xs rule: dict_extend.induct) (auto simp: bindings_of_def)

lemma bindings_of_Nil: "bindings_of [] m = []"
  by (simp add: bindings_of_def)

lemma bindings_of_mem:
  "distinct (map fst imps) \<Longrightarrow> (m, items) \<in> set imps \<Longrightarrow> bindings_of imps m = items"
  by (simp add: bindings_of_def)

lemma keys_fold:
  "fst ` set (fold (\<lambda>x imps. dict_extend imps (key x) (vals x)) xs imps) = fst ` set imps \<union> key ` set xs"
proof (induction xs arbitrary: imps)
  case Nil
  show ?case by simp
next
  case (Cons x xs)
  have "fst ` set (dict_extend imps (key x) (vals x)) = insert (key x) (fst ` set imps)"
    using keys_extend [of imps "key x" "vals x"] by (auto simp flip: set_map split: if_splits)
  then show ?case by (simp add: Cons.IH)
qed

lemma distinct_fold:
  "distinct (map fst imps) \<Longrightarrow>
     distinct (map fst (fold (\<lambda>x imps. dict_extend imps (key x) (vals x)) xs imps))"
  by (induction xs arbitrary: imps) (auto simp: distinct_extend)

lemma bindings_fold:
  "bindings_of (fold (\<lambda>x imps. dict_extend imps (key x) (vals x)) xs imps) m =
     bindings_of imps m @ concat (map vals [x\<leftarrow>xs. key x = m])"
  by (induction xs arbitrary: imps) (auto simp: bindings_extend)

lemma add_named_eq: "add_named = (\<lambda>x imps. dict_extend imps (snd x ! 1) (named_items (snd x ! 0)))"
  by (rule ext)+ (simp add: add_named_def)

lemma add_namespace_eq: "add_namespace = (\<lambda>x imps. dict_extend imps (snd x ! 1) [''* as '' @ snd x ! 0])"
  by (rule ext)+ (simp add: add_namespace_def)

lemma add_default_eq: "add_default = (\<lambda>x imps. dict_extend imps (snd x ! 1) [snd x ! 0])"
  by (rule ext)+ (simp add: add_default_def)

lemma add_side_effect_eq: "add_side_effect = (\<lambda>x imps. dict_extend imps (snd x ! 0) [side_effect])"
  by (rule ext)+ (simp add: add_side_effect_def)

lemmas add_eqs = add_named_eq add_namespace_eq add_default_eq add_side_effect_eq

lemma distinct_extract_imports: "distinct (map fst (extract_imports content))"
  unfolding extract_imports_def Let_def add_eqs
  by (simp add: distinct_fold)

lemma bindings_extract_imports:
  "bindings_of (extract_imports content) m =
     concat (map (\<lambda>x. named_items (snd x ! 0))
       [x\<leftarrow>finditer named_pattern 0 None content. snd x ! 1 = m]) @
     map (\<lambda>x. ''* as '' @ snd x ! 0) [x\<leftarrow>finditer namespace_pattern 0 None content. snd x ! 1 = m] @
     map (\<lambda>x. snd x ! 0) [x\<leftarrow>finditer default_pattern 0 None content. snd x ! 1 = m] @
     map (\<lambda>x. side_effect) [x\<leftarrow>finditer side_effect_pattern 0 None content. snd x ! 0 = m]"
  unfolding extract_imports_def Let_def add_eqs
  by (simp add: bindings_fold bindings_of_Nil)

lemma keys_extract_imports:
  "fst ` set (extract_imports content) =
     (\<lambda>x. snd x ! 1) ` set (finditer named_pattern 0 None content) \<union>
     (\<lambda>x. snd x ! 1) ` set (finditer namespace_pattern 0 None content) \<union>
     (\<lambda>x. snd x ! 1) ` set (finditer default_pattern 0 None content) \<union>
     (\<lambda>x. snd x ! 0) ` set (finditer side_effect_pattern 0 None content)"
  unfolding extract_imports_def Let_def add_eqs
  by (simp add: keys_fold)

lemma group_sets_patterns:
  "group_sets named_pattern = [notbrace, notquote]"
  "group_sets namespace_pattern = [isword, notquote]"
  "group_sets default_pattern = [isword, notquote]"
  "group_sets side_effect_pattern = [notquote]"
  by (simp_all add: named_pattern_def namespace_pattern_def default_pattern_def
      side_effect_pattern_def lit_def)

lemma finditer_groups:
  assumes "x \<in> set (finditer pat pos prev s)"
  shows "list_all2 (\<lambda>g p. list_all p g) (snd x) (group_sets pat)"
proof -
  obtain i gs where x: "x = (i, gs)" by (cases x)
  with assms finditer_match obtain prev' n where "rmatch pat prev' (drop (i - pos) s) = Some (gs, n)"
    by blast
  then show ?thesis using rmatch_groups x by auto
qed

lemma two_groups:
  "list_all2 (\<lambda>g p. list_all p g) gs [p1, p2] \<Longrightarrow> list_all p1 (gs ! 0) \<and> list_all p2 (gs ! 1)"
  by (auto simp: list_all2_Cons2)

lemma one_group:
  "list_all2 (\<lambda>g p. list_all p g) gs [p1] \<Longrightarrow> list_all p1 (gs ! 0)"
  by (auto simp: list_all2_Cons2)

lemma keys_notquote:
  assumes "k \<in> fst ` set (extract_imports content)"
  shows "list_all notquote k"
proof -
  from assms consider
      x where "x \<in> set (finditer named_pattern 0 None content)" "k = snd x ! 1"
    | x where "x \<in> set (finditer namespace_pattern 0 None content)" "k = snd x ! 1"
    | x where "x \<in> set (finditer default_pattern 0 None content)" "k = snd x ! 1"
    | x where "x \<in> set (finditer side_effect_pattern 0 None content)" "k = snd x ! 0"
    unfolding keys_extract_imports by blast
  then show ?thesis
  proof cases
    case 1
    then show ?thesis
      using two_groups [OF finditer_groups [OF 1(1), unfolded group_sets_patterns]] by simp
  next
    case 2
    then show ?thesis
      using two_groups [OF finditer_groups [OF 2(1), unfolded group_sets_patterns]] by simp
  next
    case 3
    then show ?thesis
      using two_groups [OF finditer_groups [OF 3(1), unfolded group_sets_patterns]] by simp
  next
    case 4
    then show ?thesis
      using one_group [OF finditer_groups [OF 4(1), unfolded group_sets_patterns]] by simp
  qed
qed

section \<open>The order of a module's bindings\<close>

lemma concat_map_filter_map:
  "concat (map (\<lambda>d. snd (snd d)) (filter (\<lambda>d. fst (snd d) = m) (map (\<lambda>x. (f x, k x, v x)) xs))) =
     concat (map v (filter (\<lambda>x. k x = m) xs))"
  by (induction xs) auto

lemma bindings_declarations:
  "bindings_of (extract_imports content) m =
     concat (map (\<lambda>d. snd (snd d)) [d\<leftarrow>declarations content. fst (snd d) = m])"
  unfolding declarations_def bindings_extract_imports filter_append map_append concat_append
    concat_map_filter_map
  by (simp add: concat_map_singleton)

lemma sort_key_sorted: "sorted (map f xs) \<Longrightarrow> sort_key f xs = xs"
  by (induction xs) (auto simp: insort_is_Cons)

text \<open>
  Claim C1, as amended.  The bindings of a module are those of its named declarations,
  then of its namespaced ones, then of its default ones, then its side-effect sentinels:
  the four passes of \<open>extract_imports\<close> in turn, each pass in the order of the offsets in
  the file.  The list is in declaration order when the module's declarations come in the
  file in this order of shapes.  The claim as stated fails: a default import in front of
  a named import of the same module is listed after it.
\<close>

theorem extract_imports_order:
  "bindings_of (extract_imports content) m =
     concat (map (\<lambda>d. snd (snd d)) [d\<leftarrow>declarations content. fst (snd d) = m]) \<and>
   (\<forall>pat. sorted_wrt (<) (map fst (finditer pat 0 None content))) \<and>
   (sorted (map fst [d\<leftarrow>declarations content. fst (snd d) = m]) \<longrightarrow>
      bindings_of (extract_imports content) m = in_declaration_order content m)"
  by (simp add: bindings_declarations finditer_offsets in_declaration_order_def sort_key_sorted)

lemma example_order_extract:
  "extract_imports ''import X from 'm';import { A } from 'm';'' = [(''m'', [''A'', ''X''])]"
  by code_simp

lemma example_order_declarations:
  "declarations ''import X from 'm';import { A } from 'm';'' =
     [(18, ''m'', [''A'']), (0, ''m'', [''X''])]"
  by code_simp

theorem extract_imports_order_counterexample:
  "bindings_of (extract_imports ''import X from 'm';import { A } from 'm';'') ''m'' = [''A'', ''X''] \<and>
   in_declaration_order ''import X from 'm';import { A } from 'm';'' ''m'' = [''X'', ''A'']"
  by (simp add: example_order_extract example_order_declarations in_declaration_order_def
      bindings_of_def)

lemma example_order2_declarations:
  "declarations ''import { A } from 'm';import X from 'm';'' =
     [(0, ''m'', [''A'']), (22, ''m'', [''X''])]"
  by code_simp

theorem extract_imports_order_witness:
  "bindings_of (extract_imports ''import { A } from 'm';import X from 'm';'') ''m'' = [''A'', ''X''] \<and>
   in_declaration_order ''import { A } from 'm';import X from 'm';'' ''m'' = [''A'', ''X'']"
  using extract_imports_order [of "''import { A } from 'm';import X from 'm';''" "''m''"]
  by (simp add: example_order2_declarations in_declaration_order_def)

section \<open>Duplicates and side-effect imports\<close>

lemma report_notin:
  assumes "\<And>its. item \<notin> set (g its)" "list_all notquote k"
    "\<forall>k'\<in>fst ` set imps. list_all notquote k'"
  shows "describe item k \<notin> set (report g imps)"
proof
  assume "describe item k \<in> set (report g imps)"
  then obtain k' its i where k': "(k', its) \<in> set imps" and i: "i \<in> set (g its)"
    and eq: "describe item k = describe i k'"
    by (auto simp: report_def)
  have "list_all notquote k'" using k' assms(3) by force
  then have "item = i" using describe_inj [OF assms(2) _ eq] by simp
  then show False using i assms(1) by simp
qed

lemma duplicate_items_snoc:
  "duplicate_items m (xs @ [x]) {} [] =
     duplicate_items m xs {} [] @ (if x \<in> set xs \<and> x \<noteq> side_effect then [describe x m] else [])"
  by (simp add: duplicate_items_eq repeated_append)

lemma find_duplicate_imports_modules:
  "find_duplicate_imports imps = concat (map (\<lambda>(m, items). duplicate_items m items {} []) imps)"
  by (simp add: find_duplicate_imports_eq report_def duplicate_items_eq)

lemma count_duplicate_items:
  "item \<noteq> side_effect \<Longrightarrow>
   count_list (duplicate_items m items {} []) (describe item m) = count_list items item - 1"
  by (simp add: duplicate_items_eq count_map_describe count_repeated)

text \<open>
  Claim C3.  The duplicates of a dictionary are those of its modules, one module after the
  other, each computed from the list of that module alone.  A binding text other than the
  sentinel that occurs \<open>k\<close> times in the list of a module gets \<open>k - 1\<close> duplicate
  descriptions from that module: an occurrence is flagged exactly when the text occurs
  earlier in the same list, so never the first one, and a text that occurs at most once in
  the list of a module gets none from it, whatever the lists of the other modules hold.
  In a dictionary whose module specifiers are free of quote characters, as those of every
  extracted dictionary are, descriptions of different modules differ, and \<open>k - 1\<close> is
  also the number of times the description occurs in the whole result.
\<close>

theorem find_duplicate_imports_count:
  assumes "item \<noteq> side_effect"
  shows "find_duplicate_imports imps =
      concat (map (\<lambda>(m, items). duplicate_items m items {} []) imps) \<and>
    count_list (duplicate_items m items {} []) (describe item m) = count_list items item - 1 \<and>
    (\<forall>xs x. duplicate_items m (xs @ [x]) {} [] =
       duplicate_items m xs {} [] @
       (if x \<in> set xs \<and> x \<noteq> side_effect then [describe x m] else [])) \<and>
    (count_list items item \<le> 1 \<longrightarrow> describe item m \<notin> set (duplicate_items m items {} [])) \<and>
    (distinct (map fst imps) \<and> (\<forall>k\<in>fst ` set imps. list_all notquote k) \<and>
     (m, items) \<in> set imps \<longrightarrow>
       count_list (find_duplicate_imports imps) (describe item m) = count_list items item - 1)"
proof -
  have c: "count_list (duplicate_items m items {} []) (describe item m) = count_list items item - 1"
    using assms by (rule count_duplicate_items)
  have n: "count_list items item \<le> 1 \<longrightarrow> describe item m \<notin> set (duplicate_items m items {} [])"
    using c by (auto simp: count_list_0_iff [symmetric] simp del: count_list_0_iff)
  have s: "\<forall>xs x. duplicate_items m (xs @ [x]) {} [] =
       duplicate_items m xs {} [] @
       (if x \<in> set xs \<and> x \<noteq> side_effect then [describe x m] else [])"
    by (intro allI) (rule duplicate_items_snoc)
  have w: "distinct (map fst imps) \<and> (\<forall>k\<in>fst ` set imps. list_all notquote k) \<and>
     (m, items) \<in> set imps \<longrightarrow>
       count_list (find_duplicate_imports imps) (describe item m) = count_list items item - 1"
  proof (intro impI, elim conjE)
    assume d: "distinct (map fst imps)" and q: "\<forall>k\<in>fst ` set imps. list_all notquote k"
      and i: "(m, items) \<in> set imps"
    show "count_list (find_duplicate_imports imps) (describe item m) = count_list items item - 1"
      using count_report [OF d i q] assms
      by (simp add: find_duplicate_imports_eq count_repeated)
  qed
  show ?thesis
    by (intro conjI find_duplicate_imports_modules c s n w)
qed

theorem find_duplicate_imports_count_witness:
  "count_list (find_duplicate_imports [(''m'', [''A'', ''B'', ''A'', ''A'']), (''n'', [''A''])])
     (describe ''A'' ''m'') = 2 \<and>
   count_list (duplicate_items ''m'' [''A'', ''B'', ''A'', ''A''] {} []) (describe ''A'' ''m'') = 2 \<and>
   describe ''A'' ''n'' \<notin> set (duplicate_items ''n'' [''A''] {} []) \<and>
   count_list (find_duplicate_imports [(''m'', [''A'', ''B'', ''A'', ''A'']), (''n'', [''A''])])
     (describe ''A'' ''n'') = 0"
proof -
  let ?imps = "[(''m'', [''A'', ''B'', ''A'', ''A'']), (''n'', [''A''])]"
  have a: "''A'' \<noteq> side_effect" by (simp add: side_effect_def)
  note m = find_duplicate_imports_count [OF a, of ?imps "''m''" "[''A'', ''B'', ''A'', ''A'']"]
  note n = find_duplicate_imports_count [OF a, of ?imps "''n''" "[''A'']"]
  have hm: "distinct (map fst ?imps) \<and> (\<forall>k\<in>fst ` set ?imps. list_all notquote k) \<and>
      (''m'', [''A'', ''B'', ''A'', ''A'']) \<in> set ?imps"
    by (simp add: notquote_def quote_def)
  have hn: "distinct (map fst ?imps) \<and> (\<forall>k\<in>fst ` set ?imps. list_all notquote k) \<and>
      (''n'', [''A'']) \<in> set ?imps"
    by (simp add: notquote_def quote_def)
  have "count_list (find_duplicate_imports ?imps) (describe ''A'' ''m'') =
      count_list [''A'', ''B'', ''A'', ''A''] ''A'' - 1"
    using m [THEN conjunct2, THEN conjunct2, THEN conjunct2, THEN conjunct2] hm by (rule mp)
  then have c1: "count_list (find_duplicate_imports ?imps) (describe ''A'' ''m'') = 2" by simp
  have "count_list (duplicate_items ''m'' [''A'', ''B'', ''A'', ''A''] {} []) (describe ''A'' ''m'') =
      count_list [''A'', ''B'', ''A'', ''A''] ''A'' - 1"
    using m by (rule conjunct2 [THEN conjunct1])
  then have c2: "count_list (duplicate_items ''m'' [''A'', ''B'', ''A'', ''A''] {} [])
      (describe ''A'' ''m'') = 2" by simp
  have "count_list [''A''] ''A'' \<le> 1 \<longrightarrow>
      describe ''A'' ''n'' \<notin> set (duplicate_items ''n'' [''A''] {} [])"
    using n by (rule conjunct2 [THEN conjunct2, THEN conjunct2, THEN conjunct1])
  moreover have "count_list [''A''] ''A'' \<le> 1" by simp
  ultimately have c3: "describe ''A'' ''n'' \<notin> set (duplicate_items ''n'' [''A''] {} [])"
    by (rule mp)
  have "count_list (find_duplicate_imports ?imps) (describe ''A'' ''n'') =
      count_list [''A''] ''A'' - 1"
    using n [THEN conjunct2, THEN conjunct2, THEN conjunct2, THEN conjunct2] hn by (rule mp)
  then have c4: "count_list (find_duplicate_imports ?imps) (describe ''A'' ''n'') = 0" by simp
  show ?thesis by (intro conjI c1 c2 c3 c4)
qed

lemma is_unused_side_effect: "side_effect \<notin> set (filter (is_unused text) its)"
  by (simp add: is_unused_def)

text \<open>
  Claim C5.  For every file text, \<open>find_unused_imports\<close> returns a list, and for no module
  of the extracted dictionary is the description of its side-effect sentinel on that list
  or on the list of \<open>find_duplicate_imports\<close>, however often the import recurs.
\<close>

theorem side_effect_never_reported:
  "\<exists>unused. find_unused_imports content (extract_imports content) = Inr unused \<and>
     (\<forall>m\<in>fst ` set (extract_imports content).
        describe side_effect m \<notin> set unused \<and>
        describe side_effect m \<notin> set (find_duplicate_imports (extract_imports content)))"
proof -
  have q: "\<forall>k\<in>fst ` set (extract_imports content). list_all notquote k"
    using keys_notquote by blast
  have "describe side_effect m \<notin>
      set (report (filter (is_unused (content_without_imports content))) (extract_imports content))"
    if "m \<in> fst ` set (extract_imports content)" for m
  proof (rule report_notin)
    show "side_effect \<notin> set (filter (is_unused (content_without_imports content)) its)" for its
      by (rule is_unused_side_effect)
    show "list_all notquote m" using q that by (rule bspec)
    show "\<forall>k'\<in>fst ` set (extract_imports content). list_all notquote k'" by (rule q)
  qed
  moreover have "describe side_effect m \<notin>
      set (report (\<lambda>items. repeated items {}) (extract_imports content))"
    if "m \<in> fst ` set (extract_imports content)" for m
  proof (rule report_notin)
    show "side_effect \<notin> set (repeated its {})" for its
      by (rule repeated_side_effect)
    show "list_all notquote m" using q that by (rule bspec)
    show "\<forall>k'\<in>fst ` set (extract_imports content). list_all notquote k'" by (rule q)
  qed
  ultimately show ?thesis
    by (simp add: find_unused_imports_eq find_duplicate_imports_eq)
qed

lemma example_side_effect_extract:
  "extract_imports ''import 'p';import 'p';'' = [(''p'', [side_effect, side_effect])]"
  by code_simp

theorem side_effect_never_reported_witness:
  "extract_imports ''import 'p';import 'p';'' = [(''p'', [side_effect, side_effect])] \<and>
   (\<exists>unused. find_unused_imports ''import 'p';import 'p';'' (extract_imports ''import 'p';import 'p';'') =
       Inr unused \<and>
     describe side_effect ''p'' \<notin> set unused) \<and>
   describe side_effect ''p'' \<notin>
     set (find_duplicate_imports (extract_imports ''import 'p';import 'p';''))"
proof -
  let ?c = "''import 'p';import 'p';''"
  from side_effect_never_reported [of ?c]
  obtain unused where all: "find_unused_imports ?c (extract_imports ?c) = Inr unused \<and>
     (\<forall>m\<in>fst ` set (extract_imports ?c).
        describe side_effect m \<notin> set unused \<and>
        describe side_effect m \<notin> set (find_duplicate_imports (extract_imports ?c)))" ..
  have u: "find_unused_imports ?c (extract_imports ?c) = Inr unused"
    using all by (rule conjunct1)
  have a: "\<forall>m\<in>fst ` set (extract_imports ?c).
        describe side_effect m \<notin> set unused \<and>
        describe side_effect m \<notin> set (find_duplicate_imports (extract_imports ?c))"
    using all by (rule conjunct2)
  have "''p'' \<in> fst ` set (extract_imports ?c)"
    unfolding example_side_effect_extract by simp
  with a have p: "describe side_effect ''p'' \<notin> set unused \<and>
        describe side_effect ''p'' \<notin> set (find_duplicate_imports (extract_imports ?c))"
    by (rule bspec)
  have "\<exists>unused. find_unused_imports ?c (extract_imports ?c) = Inr unused \<and>
     describe side_effect ''p'' \<notin> set unused"
    using u p [THEN conjunct1] by (intro exI [of _ unused] conjI)
  then show ?thesis
    using example_side_effect_extract p [THEN conjunct2] by (intro conjI)
qed

section \<open>Unused bindings extracted more than once\<close>







section \<open>Aliased entries of a named import\<close>











section \<open>Statements of the named and of the namespaced shape\<close>

lemma rmatch_One:
  assumes "rmatch (Chars p One # es) prev s = Some (gs, k)"
  shows "\<exists>c r m. s = c # r \<and> p c \<and> k = Suc m \<and> rmatch es (Some c) r = Some (gs, m)"
proof (cases s)
  case Nil
  then show ?thesis using assms by (simp add: counts_def)
next
  case (Cons c r)
  show ?thesis
  proof (cases "p c")
    case True
    then show ?thesis using assms Cons
      by (auto simp: counts_def before_def split: option.splits)
  next
    case False
    then show ?thesis using assms Cons by (simp add: counts_def)
  qed
qed

lemma lit_match:
  "rmatch (lit w @ es) prev s = Some (gs, k) \<Longrightarrow>
     \<exists>r prev' m. s = w @ r \<and> rmatch es prev' r = Some (gs, m)"
proof (induction w arbitrary: prev s k)
  case Nil
  then show ?case by (auto simp: lit_def)
next
  case (Cons c w)
  have "rmatch (Chars (is_char c) One # (lit w @ es)) prev s = Some (gs, k)"
    using Cons.prems by (simp add: lit_def)
  then obtain c' r0 m where s: "s = c' # r0" and c: "is_char c c'"
    and m: "rmatch (lit w @ es) (Some c') r0 = Some (gs, m)"
    using rmatch_One by blast
  from Cons.IH [OF m] obtain r prev' m' where "r0 = w @ r" "rmatch es prev' r = Some (gs, m')"
    by blast
  then show ?case using s c by (auto simp: is_char_def)
qed

lemma isspace_not_isword: "isspace c \<Longrightarrow> \<not> isword c"
  unfolding isspace_def isword_def Let_def by arith

lemma spaces_then_char:
  assumes "rmatch (Chars isspace q # Chars (is_char c) One # es) prev r = Some x"
  shows "\<exists>ws rest. r = ws @ c # rest \<and> list_all isspace ws"
proof -
  obtain gs k where x: "x = (gs, k)" by (cases x)
  from assms [unfolded x] obtain n m where n: "n \<le> length (takeWhile isspace r)"
    and m: "rmatch (Chars (is_char c) One # es) (before prev (take n r)) (drop n r) = Some (gs, m)"
    using rmatch_Chars by blast
  from rmatch_One [OF m] obtain c' rest where "drop n r = c' # rest" "is_char c c'" by blast
  then have d: "drop n r = c # rest" by (simp add: is_char_def)
  have "r = take n r @ drop n r" by simp
  then have "r = take n r @ c # rest" using d by simp
  moreover have "list_all isspace (take n r)" using n by (rule take_run)
  ultimately show ?thesis by blast
qed

lemma no_word_after_spaces:
  assumes "list_all isspace ws" and "\<not> isspace c" and "\<not> isword c"
  shows "rmatch (Chars isspace Plus # Group isword Plus # es) prev (ws @ c # rest) = None"
proof (rule ccontr)
  let ?r = "ws @ c # rest"
  assume "rmatch (Chars isspace Plus # Group isword Plus # es) prev ?r \<noteq> None"
  then obtain gs k where "rmatch (Chars isspace Plus # Group isword Plus # es) prev ?r = Some (gs, k)"
    by auto
  then obtain n m where n: "n \<le> length (takeWhile isspace ?r)"
    and m: "rmatch (Group isword Plus # es) (before prev (take n ?r)) (drop n ?r) = Some (gs, m)"
    using rmatch_Chars by blast
  have t: "takeWhile isspace ?r = ws"
    using assms(1,2) by (simp add: takeWhile_append2 list_all_iff)
  then have le: "n \<le> length ws" using n by simp
  from rmatch_Group [OF m] obtain n' where "lo Plus \<le> n'" "n' \<le> length (takeWhile isword (drop n ?r))"
    by blast
  then have "takeWhile isword (drop n ?r) \<noteq> []" by auto
  then have w: "isword (hd (drop n ?r))" by (cases "drop n ?r") (auto split: if_splits)
  have d: "drop n ?r = drop n ws @ c # rest" using le by simp
  show False
  proof (cases "n < length ws")
    case True
    then have "hd (drop n ?r) = ws ! n" using d by (simp add: hd_drop_conv_nth)
    moreover have "isspace (ws ! n)" using assms(1) True by (simp add: list_all_length)
    ultimately show False using w isspace_not_isword by simp
  next
    case False
    then have "hd (drop n ?r) = c" using d le by simp
    then show False using w assms(3) by simp
  qed
qed

lemma brace_star_class:
  "\<not> isspace CHR ''{''" "\<not> isword CHR ''{''" "\<not> isspace CHR ''*''" "\<not> isword CHR ''*''"
  by (simp_all add: isspace_def isword_def)

lemma named_not_default:
  assumes "rmatch named_pattern prev s = Some x"
  shows "rmatch default_pattern prev' s = None"
proof (rule ccontr)
  assume "rmatch default_pattern prev' s \<noteq> None"
  then obtain gs' k' where d: "rmatch default_pattern prev' s = Some (gs', k')" by auto
  obtain gs k where x: "x = (gs, k)" by (cases x)
  from lit_match [OF assms [unfolded x named_pattern_def append_assoc]]
  obtain r p1 m1 where s: "s = ''import'' @ r"
    and a: "rmatch ([Chars isspace Star, Chars (is_char CHR ''{'') One, Chars isspace Star,
       Group notbrace Plus, Chars isspace Star, Chars (is_char CHR ''}'') One, Chars isspace Star] @
     lit ''from'' @ [Chars isspace Star, Chars quote One, Group notquote Plus, Chars quote One])
       p1 r = Some (gs, m1)"
    by blast
  from lit_match [OF d [unfolded default_pattern_def append_assoc]]
  obtain r' p2 m2 where s': "s = ''import'' @ r'"
    and b: "rmatch ([Chars isspace Plus, Group isword Plus, Chars isspace Plus] @
     lit ''from'' @ [Chars isspace Plus, Chars quote One, Group notquote Plus, Chars quote One])
       p2 r' = Some (gs', m2)"
    by blast
  have r: "r' = r" using s s' by simp
  from a [unfolded append.simps]
  have "\<exists>ws rest. r = ws @ CHR ''{'' # rest \<and> list_all isspace ws"
    by (rule spaces_then_char)
  then obtain ws rest where w: "r = ws @ CHR ''{'' # rest" "list_all isspace ws" by blast
  have b': "rmatch (Chars isspace Plus # Group isword Plus # Chars isspace Plus #
      (lit ''from'' @ [Chars isspace Plus, Chars quote One, Group notquote Plus, Chars quote One]))
      p2 (ws @ CHR ''{'' # rest) = Some (gs', m2)"
    using b [unfolded append.simps] unfolding r w(1) .
  have "Some (gs', m2) = None"
    unfolding b' [symmetric] by (rule no_word_after_spaces [OF w(2) brace_star_class(1,2)])
  then show False by simp
qed

lemma namespace_not_default:
  assumes "rmatch namespace_pattern prev s = Some x"
  shows "rmatch default_pattern prev' s = None"
proof (rule ccontr)
  assume "rmatch default_pattern prev' s \<noteq> None"
  then obtain gs' k' where d: "rmatch default_pattern prev' s = Some (gs', k')" by auto
  obtain gs k where x: "x = (gs, k)" by (cases x)
  from lit_match [OF assms [unfolded x namespace_pattern_def append_assoc]]
  obtain r p1 m1 where s: "s = ''import'' @ r"
    and a: "rmatch ([Chars isspace Star, Chars (is_char CHR ''*'') One, Chars isspace Star] @
     lit ''as'' @ [Chars isspace Plus, Group isword Plus, Chars isspace Plus] @
     lit ''from'' @ [Chars isspace Plus, Chars quote One, Group notquote Plus, Chars quote One])
       p1 r = Some (gs, m1)"
    by blast
  from lit_match [OF d [unfolded default_pattern_def append_assoc]]
  obtain r' p2 m2 where s': "s = ''import'' @ r'"
    and b: "rmatch ([Chars isspace Plus, Group isword Plus, Chars isspace Plus] @
     lit ''from'' @ [Chars isspace Plus, Chars quote One, Group notquote Plus, Chars quote One])
       p2 r' = Some (gs', m2)"
    by blast
  have r: "r' = r" using s s' by simp
  from a [unfolded append.simps]
  have "\<exists>ws rest. r = ws @ CHR ''*'' # rest \<and> list_all isspace ws"
    by (rule spaces_then_char)
  then obtain ws rest where w: "r = ws @ CHR ''*'' # rest" "list_all isspace ws" by blast
  have b': "rmatch (Chars isspace Plus # Group isword Plus # Chars isspace Plus #
      (lit ''from'' @ [Chars isspace Plus, Chars quote One, Group notquote Plus, Chars quote One]))
      p2 (ws @ CHR ''*'' # rest) = Some (gs', m2)"
    using b [unfolded append.simps] unfolding r w(1) .
  have "Some (gs', m2) = None"
    unfolding b' [symmetric] by (rule no_word_after_spaces [OF w(2) brace_star_class(3,4)])
  then show False by simp
qed

lemma default_match_import:
  assumes "(k, gs) \<in> set (finditer default_pattern 0 None content)"
  shows "prefix ''import'' (drop k content)"
proof -
  from finditer_match [OF assms] obtain prev n
    where "rmatch default_pattern prev (drop k content) = Some (gs, n)" by auto
  from lit_match [OF this [unfolded default_pattern_def append_assoc]]
  show ?thesis by (auto simp: prefix_def)
qed

text \<open>
  Claim C6, as amended.  Where a match of the named or of the namespaced pattern begins,
  the default pattern has no match: the statement is not read as a default import too,
  and the default pass adds no binding at its offset.  Every match of the default pattern
  begins with the keyword \<open>import\<close>, so one can begin inside the text of such a statement
  only at a later occurrence of the keyword there.
\<close>

theorem default_pattern_exclusive:
  assumes "(i, gs) \<in> set (finditer named_pattern 0 None content) \<or>
           (i, gs) \<in> set (finditer namespace_pattern 0 None content)"
  shows "(\<forall>prev. rmatch default_pattern prev (drop i content) = None) \<and>
    (\<forall>gs'. (i, gs') \<notin> set (finditer default_pattern 0 None content)) \<and>
    (\<forall>k gs'. (k, gs') \<in> set (finditer default_pattern 0 None content) \<longrightarrow>
       k \<noteq> i \<and> prefix ''import'' (drop k content))"
proof -
  have n: "rmatch default_pattern prev (drop i content) = None" for prev
    using assms
  proof
    assume "(i, gs) \<in> set (finditer named_pattern 0 None content)"
    from finditer_match [OF this] obtain p n
      where "rmatch named_pattern p (drop i content) = Some (gs, n)" by auto
    then show ?thesis by (rule named_not_default)
  next
    assume "(i, gs) \<in> set (finditer namespace_pattern 0 None content)"
    from finditer_match [OF this] obtain p n
      where "rmatch namespace_pattern p (drop i content) = Some (gs, n)" by auto
    then show ?thesis by (rule namespace_not_default)
  qed
  have m: "(i, gs') \<notin> set (finditer default_pattern 0 None content)" for gs'
  proof
    assume "(i, gs') \<in> set (finditer default_pattern 0 None content)"
    from finditer_match [OF this] obtain p k
      where "rmatch default_pattern p (drop i content) = Some (gs', k)" by auto
    then show False using n [of p] by simp
  qed
  have "k \<noteq> i \<and> prefix ''import'' (drop k content)"
    if "(k, gs') \<in> set (finditer default_pattern 0 None content)" for k gs'
    using that m default_match_import by blast
  then show ?thesis using n m by blast
qed

text \<open>
  The claim as it was stated fails on a statement of the named shape that holds the
  keyword again, here in a comment between the braces: the default pattern matches inside
  it, and the statement gives a default binding for a second module.
\<close>

theorem default_pattern_exclusive_counterexample:
  "finditer named_pattern 0 None ''import { A /* import x from 'y' */ } from 'm';'' =
     [(0, [''A /* import x from 'y' */ '', ''m''])] \<and>
   finditer default_pattern 0 None ''import { A /* import x from 'y' */ } from 'm';'' =
     [(14, [''x'', ''y''])] \<and>
   extract_imports ''import { A /* import x from 'y' */ } from 'm';'' =
     [(''m'', [''A /* import x from 'y' */'']), (''y'', [''x''])]"
  by code_simp

lemma example_shapes_named:
  "finditer named_pattern 0 None ''import { A } from 'm';import * as N from 'n';import D from 'd';'' =
     [(0, [''A '', ''m''])]"
  by code_simp

lemma example_shapes_namespace:
  "finditer namespace_pattern 0 None ''import { A } from 'm';import * as N from 'n';import D from 'd';'' =
     [(22, [''N'', ''n''])]"
  by code_simp

lemma example_shapes_extract:
  "extract_imports ''import { A } from 'm';import * as N from 'n';import D from 'd';'' =
     [(''m'', [''A'']), (''n'', [''* as N'']), (''d'', [''D''])]"
  by code_simp

theorem default_pattern_exclusive_witness:
  "(\<forall>gs'. (0, gs') \<notin> set (finditer default_pattern 0 None
       ''import { A } from 'm';import * as N from 'n';import D from 'd';'')) \<and>
   (\<forall>gs'. (22, gs') \<notin> set (finditer default_pattern 0 None
       ''import { A } from 'm';import * as N from 'n';import D from 'd';'')) \<and>
   extract_imports ''import { A } from 'm';import * as N from 'n';import D from 'd';'' =
     [(''m'', [''A'']), (''n'', [''* as N'']), (''d'', [''D''])]"
proof -
  let ?c = "''import { A } from 'm';import * as N from 'n';import D from 'd';''"
  have h1: "(0, [''A '', ''m'']) \<in> set (finditer named_pattern 0 None ?c) \<or>
            (0, [''A '', ''m'']) \<in> set (finditer namespace_pattern 0 None ?c)"
    by (simp add: example_shapes_named)
  have h2: "(22, [''N'', ''n'']) \<in> set (finditer named_pattern 0 None ?c) \<or>
            (22, [''N'', ''n'']) \<in> set (finditer namespace_pattern 0 None ?c)"
    by (simp add: example_shapes_namespace)
  have a: "\<forall>gs'. (0, gs') \<notin> set (finditer default_pattern 0 None ?c)"
    using default_pattern_exclusive [OF h1] by (rule conjunct2 [THEN conjunct1])
  have b: "\<forall>gs'. (22, gs') \<notin> set (finditer default_pattern 0 None ?c)"
    using default_pattern_exclusive [OF h2] by (rule conjunct2 [THEN conjunct1])
  show ?thesis
    by (intro conjI a b example_shapes_extract)
qed

section \<open>Whole-word occurrences\<close>

lemma rmatch_One_iff:
  "rmatch (Chars (is_char c) One # es) prev s \<noteq> None \<longleftrightarrow>
     (\<exists>r. s = c # r \<and> rmatch es (Some c) r \<noteq> None)"
proof (cases s)
  case Nil
  then show ?thesis by (simp add: counts_def)
next
  case (Cons c' r)
  show ?thesis
  proof (cases "c' = c")
    case True
    then show ?thesis using Cons
      by (auto simp: counts_def before_def is_char_def split: option.splits)
  next
    case False
    then show ?thesis using Cons by (auto simp: counts_def is_char_def)
  qed
qed

lemma before_Cons: "before prev (c # w) = before (Some c) w"
  by (simp add: before_def)

lemma rmatch_lit:
  "rmatch (lit w @ es) prev s \<noteq> None \<longleftrightarrow>
     prefix w s \<and> rmatch es (before prev w) (drop (length w) s) \<noteq> None"
proof (induction w arbitrary: prev s)
  case Nil
  show ?case by (simp add: lit_def before_def)
next
  case (Cons c w)
  have "rmatch (lit (c # w) @ es) prev s \<noteq> None \<longleftrightarrow>
      rmatch (Chars (is_char c) One # (lit w @ es)) prev s \<noteq> None"
    by (simp add: lit_def)
  also have "\<dots> \<longleftrightarrow> (\<exists>r. s = c # r \<and> rmatch (lit w @ es) (Some c) r \<noteq> None)"
    by (rule rmatch_One_iff)
  also have "\<dots> \<longleftrightarrow> (\<exists>r. s = c # r \<and> prefix w r \<and>
      rmatch es (before (Some c) w) (drop (length w) r) \<noteq> None)"
    by (simp only: Cons.IH)
  also have "\<dots> \<longleftrightarrow> prefix (c # w) s \<and>
      rmatch es (before prev (c # w)) (drop (length (c # w)) s) \<noteq> None"
    by (cases s) (auto simp: before_Cons)
  finally show ?case .
qed

lemma rmatch_Bound: "rmatch [Bound] prev s \<noteq> None \<longleftrightarrow> at_boundary prev s"
  by simp

lemma rmatch_word_pattern:
  "rmatch (word_pattern name) prev s \<noteq> None \<longleftrightarrow>
     at_boundary prev s \<and> prefix name s \<and> at_boundary (before prev name) (drop (length name) s)"
proof -
  have "rmatch (word_pattern name) prev s \<noteq> None \<longleftrightarrow>
      at_boundary prev s \<and> rmatch (lit name @ [Bound]) prev s \<noteq> None"
    by (simp add: word_pattern_def)
  then show ?thesis by (simp only: rmatch_lit rmatch_Bound)
qed

lemma word_pattern_standalone:
  assumes "name \<noteq> []" and "isword (hd name)" and "isword (last name)"
  shows "rmatch (word_pattern name) prev s \<noteq> None \<longleftrightarrow> standalone name prev s"
proof (cases "prefix name s")
  case False
  then show ?thesis unfolding rmatch_word_pattern standalone_def by simp
next
  case True
  then obtain t where s: "s = name @ t" by (auto simp: prefix_def)
  obtain c w where n: "name = c # w" using assms(1) by (cases name) auto
  have a: "at_boundary prev s \<longleftrightarrow> nonword prev"
    using assms(2) by (simp add: at_boundary_def nonword_def s n split: option.splits)
  have b: "before prev name = Some (last name)" using assms(1) by (simp add: before_def)
  have c: "at_boundary (Some (last name)) t \<longleftrightarrow>
      nonword (case t of [] \<Rightarrow> None | c # _ \<Rightarrow> Some c)"
    using assms(3) by (simp add: at_boundary_def nonword_def split: list.splits)
  have d: "drop (length name) s = t" by (simp add: s)
  show ?thesis
    unfolding rmatch_word_pattern standalone_def b d a c using True by simp
qed

lemma search_whole_word:
  assumes "name \<noteq> []" and "isword (hd name)" and "isword (last name)"
  shows "search (word_pattern name) prev s \<longleftrightarrow> whole_word name prev s"
proof (induction s arbitrary: prev)
  case Nil
  show ?case
    using word_pattern_standalone [OF assms, of prev "[]"] by (simp del: rmatch.simps)
next
  case (Cons c cs)
  show ?case
    using word_pattern_standalone [OF assms, of prev "c # cs"] Cons.IH [of "Some c"]
    by (simp del: rmatch.simps)
qed

text \<open>
  Claim C4, as amended.  Take a binding of the extracted dictionary, not the sentinel,
  whose identifier (the namespace of a namespaced binding, the binding's text otherwise)
  begins and ends with an identifier character.  It is classified as used, that is, its
  description is not on the unused list, if and only if the identifier has a whole-word
  occurrence in the content without imports.
\<close>

theorem find_unused_imports_whole_word:
  assumes "(m, items) \<in> set (extract_imports content)" and "item \<in> set items"
    and "item \<noteq> side_effect" and "usage_key item \<noteq> []"
    and "isword (hd (usage_key item))" and "isword (last (usage_key item))"
  shows "\<exists>unused. find_unused_imports content (extract_imports content) = Inr unused \<and>
    (describe item m \<notin> set unused \<longleftrightarrow>
       whole_word (usage_key item) None (content_without_imports content))"
proof -
  let ?text = "content_without_imports content"
  let ?unused = "report (filter (is_unused ?text)) (extract_imports content)"
  have u: "find_unused_imports content (extract_imports content) = Inr ?unused"
    by (rule find_unused_imports_eq)
  have q: "\<forall>k\<in>fst ` set (extract_imports content). list_all notquote k"
    using keys_notquote by blast
  have c: "count_list ?unused (describe item m) = count_list (filter (is_unused ?text) items) item"
    by (rule count_report [OF distinct_extract_imports assms(1) q])
  have "describe item m \<notin> set ?unused \<longleftrightarrow> count_list ?unused (describe item m) = 0"
    by (simp only: count_list_0_iff)
  also have "\<dots> \<longleftrightarrow> item \<notin> set (filter (is_unused ?text) items)"
    by (simp only: c count_list_0_iff)
  also have "\<dots> \<longleftrightarrow> \<not> is_unused ?text item" using assms(2) by simp
  also have "\<dots> \<longleftrightarrow> search (word_pattern (usage_key item)) None ?text"
    using assms(3) by (simp add: is_unused_def)
  also have "\<dots> \<longleftrightarrow> whole_word (usage_key item) None ?text"
    by (rule search_whole_word [OF assms(4,5,6)])
  finally have "describe item m \<notin> set ?unused \<longleftrightarrow> whole_word (usage_key item) None ?text" .
  then show ?thesis using u by (intro exI [of _ ?unused] conjI)
qed

text \<open>
  The claim as it was stated fails for a name that begins with a character that is neither
  an identifier character nor a metacharacter: \<open>\b\<close> in front of it asks for an identifier
  character before the name, so the occurrence between a space and a semicolon is not
  found, and the binding is reported unused.
\<close>

theorem find_unused_imports_whole_word_counterexample:
  "extract_imports ''import { @x } from 'm'; @x;'' = [(''m'', [''@x''])] \<and>
   content_without_imports ''import { @x } from 'm'; @x;'' = '' @x;'' \<and>
   whole_word ''@x'' None '' @x;'' \<and>
   find_unused_imports ''import { @x } from 'm'; @x;''
     (extract_imports ''import { @x } from 'm'; @x;'') = Inr [describe ''@x'' ''m'']"
  by code_simp

lemma example_word_extract:
  "extract_imports ''import { Foo } from 'm';FooBar(BarFoo);'' = [(''m'', [''Foo''])]"
  "extract_imports ''import { Foo } from 'm';x = Foo;'' = [(''m'', [''Foo''])]"
  by code_simp+

lemma example_word_occurs:
  "\<not> whole_word ''Foo'' None (content_without_imports ''import { Foo } from 'm';FooBar(BarFoo);'')"
  "whole_word ''Foo'' None (content_without_imports ''import { Foo } from 'm';x = Foo;'')"
  by code_simp+

lemma example_word_key:
  "''Foo'' \<noteq> side_effect" "usage_key ''Foo'' = ''Foo''" "isword CHR ''F''" "isword CHR ''o''"
  by (simp_all add: side_effect_def usage_key_def isword_def)

theorem find_unused_imports_whole_word_witness:
  "(\<exists>unused.
      find_unused_imports ''import { Foo } from 'm';FooBar(BarFoo);''
        (extract_imports ''import { Foo } from 'm';FooBar(BarFoo);'') = Inr unused \<and>
      describe ''Foo'' ''m'' \<in> set unused) \<and>
   (\<exists>unused.
      find_unused_imports ''import { Foo } from 'm';x = Foo;''
        (extract_imports ''import { Foo } from 'm';x = Foo;'') = Inr unused \<and>
      describe ''Foo'' ''m'' \<notin> set unused)"
proof -
  let ?c1 = "''import { Foo } from 'm';FooBar(BarFoo);''"
  let ?c2 = "''import { Foo } from 'm';x = Foo;''"
  have i: "''Foo'' \<in> set [''Foo'']" by simp
  have k: "usage_key ''Foo'' \<noteq> []" "isword (hd (usage_key ''Foo''))"
    "isword (last (usage_key ''Foo''))"
    by (simp_all add: example_word_key)
  have m1: "(''m'', [''Foo'']) \<in> set (extract_imports ?c1)" by (simp add: example_word_extract)
  have m2: "(''m'', [''Foo'']) \<in> set (extract_imports ?c2)" by (simp add: example_word_extract)
  from find_unused_imports_whole_word [OF m1 i example_word_key(1) k]
  obtain u1 where u1: "find_unused_imports ?c1 (extract_imports ?c1) = Inr u1"
    and w1: "describe ''Foo'' ''m'' \<notin> set u1 \<longleftrightarrow>
      whole_word (usage_key ''Foo'') None (content_without_imports ?c1)"
    by (elim exE conjE)
  from find_unused_imports_whole_word [OF m2 i example_word_key(1) k]
  obtain u2 where u2: "find_unused_imports ?c2 (extract_imports ?c2) = Inr u2"
    and w2: "describe ''Foo'' ''m'' \<notin> set u2 \<longleftrightarrow>
      whole_word (usage_key ''Foo'') None (content_without_imports ?c2)"
    by (elim exE conjE)
  have a: "describe ''Foo'' ''m'' \<in> set u1"
  proof (rule ccontr)
    assume "describe ''Foo'' ''m'' \<notin> set u1"
    with w1 have "whole_word (usage_key ''Foo'') None (content_without_imports ?c1)"
      by (rule iffD1)
    then show False using example_word_occurs(1) by (simp only: example_word_key(2))
  qed
  have "whole_word (usage_key ''Foo'') None (content_without_imports ?c2)"
    using example_word_occurs(2) by (simp only: example_word_key(2))
  with w2 have b: "describe ''Foo'' ''m'' \<notin> set u2" by (rule iffD2)
  show ?thesis
    by (intro conjI exI [of _ u1] exI [of _ u2] u1 u2 a b)
qed

section \<open>Declarations that are not removed\<close>

text \<open>
  Claim C2.  The two substitutions of \<open>find_unused_imports\<close> do not remove a named import
  that is written over several lines: \<open>.*?\<close> does not pass a line break, while the named
  pattern of the extractor does.  For the declaration below the binding \<open>A\<close> is extracted,
  the content without imports is the whole content, the search finds \<open>A\<close> in the
  declaration itself, and nothing is reported unused; written on one line, the same
  declaration is removed and \<open>A\<close> is reported.
\<close>

theorem content_without_imports_multiline:
  "extract_imports (''import {'' @ [newline] @ ''  A'' @ [newline] @ ''} from 'm';'') =
     [(''m'', [''A''])] \<and>
   content_without_imports (''import {'' @ [newline] @ ''  A'' @ [newline] @ ''} from 'm';'') =
     ''import {'' @ [newline] @ ''  A'' @ [newline] @ ''} from 'm';'' \<and>
   search (word_pattern ''A'') None
     (content_without_imports (''import {'' @ [newline] @ ''  A'' @ [newline] @ ''} from 'm';'')) \<and>
   find_unused_imports (''import {'' @ [newline] @ ''  A'' @ [newline] @ ''} from 'm';'')
     (extract_imports (''import {'' @ [newline] @ ''  A'' @ [newline] @ ''} from 'm';'')) = Inr [] \<and>
   content_without_imports ''import { A } from 'm';'' = [] \<and>
   find_unused_imports ''import { A } from 'm';'' (extract_imports ''import { A } from 'm';'') =
     Inr [describe ''A'' ''m'']"
  by code_simp

end
